theory Spec2Isabelle
  imports Main "HOL-Library.Word"
begin

unbundle bit_operations_syntax

section \<open>The maze of mazerunner-core (maze.h)\<close>

text \<open>
  The class \<open>Maze\<close> holds three private members: the goal cell, 256 cost bytes and 256
  wall bytes. Every index into the two arrays is a \<open>uint8_t\<close> (or a \<open>uint16_t\<close> that
  holds the \<open>uint8_t\<close> returned by \<open>neighbour\<close>), so an array is a total function on
  bytes. Member functions that mutate the object take the maze and return the new one.
\<close>

type_synonym u8 = "8 word"
type_synonym u16 = "16 word"

record maze =
  m_goal :: u8
  m_cost :: "u8 \<Rightarrow> u8"
  m_walls :: "u8 \<Rightarrow> u8"

subsection \<open>Constants\<close>

abbreviation GOAL :: u8 where "GOAL \<equiv> 0x22"
abbreviation START :: u8 where "START \<equiv> 0x00"

abbreviation NORTH :: u8 where "NORTH \<equiv> 0"
abbreviation EAST :: u8 where "EAST \<equiv> 1"
abbreviation SOUTH :: u8 where "SOUTH \<equiv> 2"
abbreviation WEST :: u8 where "WEST \<equiv> 3"

abbreviation VISITED :: u8 where "VISITED \<equiv> 0xF0"
abbreviation INVALID_DIRECTION :: u8 where "INVALID_DIRECTION \<equiv> 0"
abbreviation MAX_COST :: u8 where "MAX_COST \<equiv> 255"

text \<open>
  The object as its in-class member initialisers leave it (the constructor body is empty):
  \<open>m_goal = 0x077\<close>, both arrays zero.
\<close>

definition Maze :: maze where
  "Maze = \<lparr>m_goal = 0x077, m_cost = (\<lambda>_. 0), m_walls = (\<lambda>_. 0)\<rparr>"

text \<open>The cell encoding \<open>cell = row + 16 * col\<close> used by the print loops.\<close>

definition row :: "u8 \<Rightarrow> nat" where
  "row cell = unat cell mod 16"

definition col :: "u8 \<Rightarrow> nat" where
  "col cell = unat cell div 16"

subsection \<open>Goal, visited flag, wall queries\<close>

definition set_maze_goal :: "maze \<Rightarrow> u8 \<Rightarrow> maze" where
  "set_maze_goal m goal_cell = m\<lparr>m_goal := goal_cell\<rparr>"

definition maze_goal :: "maze \<Rightarrow> u8" where
  "maze_goal m = m_goal m"

definition mark_cell_visited :: "maze \<Rightarrow> u8 \<Rightarrow> maze" where
  "mark_cell_visited m cell = m\<lparr>m_walls := (m_walls m)(cell := m_walls m cell OR VISITED)\<rparr>"

definition cell_is_visited :: "maze \<Rightarrow> u8 \<Rightarrow> bool" where
  "cell_is_visited m cell \<longleftrightarrow> m_walls m cell AND VISITED = VISITED"

text \<open>
  \<open>1 << direction\<close> is computed in \<open>int\<close> and the wall byte is promoted to \<open>int\<close>. For a
  shift count below 8 this is the byte operation below; for a count from 8 up to the width
  of \<open>int\<close> both give "no wall"; a larger count is undefined in C++.
\<close>

definition is_exit :: "maze \<Rightarrow> u8 \<Rightarrow> u8 \<Rightarrow> bool" where
  "is_exit m cell direction \<longleftrightarrow> m_walls m cell AND push_bit (unat direction) 1 = 0"

definition is_wall :: "maze \<Rightarrow> u8 \<Rightarrow> u8 \<Rightarrow> bool" where
  "is_wall m cell direction \<longleftrightarrow> m_walls m cell AND push_bit (unat direction) 1 \<noteq> 0"

subsection \<open>Neighbours\<close>

definition cell_north :: "u8 \<Rightarrow> u8" where
  "cell_north cell = cell + 1"

definition cell_east :: "u8 \<Rightarrow> u8" where
  "cell_east cell = cell + 16"

definition cell_south :: "u8 \<Rightarrow> u8" where
  "cell_south cell = cell + 255"

definition cell_west :: "u8 \<Rightarrow> u8" where
  "cell_west cell = cell + 240"

definition neighbour :: "u8 \<Rightarrow> u8 \<Rightarrow> u8" where
  "neighbour cell direction =
     (if direction = NORTH then cell_north cell
      else if direction = EAST then cell_east cell
      else if direction = SOUTH then cell_south cell
      else if direction = WEST then cell_west cell
      else MAX_COST)"

subsection \<open>Setting and clearing walls\<close>

text \<open>The statements \<open>m_walls[c] |= (1 << d)\<close> and \<open>m_walls[c] &= ~(1 << d)\<close>.\<close>

definition or_wall :: "maze \<Rightarrow> u8 \<Rightarrow> u8 \<Rightarrow> maze" where
  "or_wall m c d = m\<lparr>m_walls := (m_walls m)(c := m_walls m c OR push_bit (unat d) 1)\<rparr>"

definition and_not_wall :: "maze \<Rightarrow> u8 \<Rightarrow> u8 \<Rightarrow> maze" where
  "and_not_wall m c d =
     m\<lparr>m_walls := (m_walls m)(c := m_walls m c AND NOT (push_bit (unat d) 1))\<rparr>"

definition set_wall_present :: "maze \<Rightarrow> u8 \<Rightarrow> u8 \<Rightarrow> maze" where
  "set_wall_present m cell direction =
     (let nextCell = neighbour cell direction in
      if direction = NORTH then or_wall (or_wall m cell NORTH) nextCell SOUTH
      else if direction = EAST then or_wall (or_wall m cell EAST) nextCell WEST
      else if direction = SOUTH then or_wall (or_wall m cell SOUTH) nextCell NORTH
      else if direction = WEST then or_wall (or_wall m cell WEST) nextCell EAST
      else m)"

definition set_wall_absent :: "maze \<Rightarrow> u8 \<Rightarrow> u8 \<Rightarrow> maze" where
  "set_wall_absent m cell direction =
     (let nextCell = neighbour cell direction in
      if direction = NORTH then and_not_wall (and_not_wall m cell NORTH) nextCell SOUTH
      else if direction = EAST then and_not_wall (and_not_wall m cell EAST) nextCell WEST
      else if direction = SOUTH then and_not_wall (and_not_wall m cell SOUTH) nextCell NORTH
      else if direction = WEST then and_not_wall (and_not_wall m cell WEST) nextCell EAST
      else m)"

subsection \<open>Initialisation\<close>

text \<open>
  The first loop zeroes both arrays. The body of the second loop, for one \<open>i\<close>; the
  arguments \<open>15 * 16 + i\<close>, \<open>i * 16\<close> and \<open>16 * i + 15\<close> are computed in \<open>int\<close> and converted
  to \<open>uint8_t\<close> at the call.
\<close>

definition boundary_walls :: "nat \<Rightarrow> maze \<Rightarrow> maze" where
  "boundary_walls i m =
     (let m1 = set_wall_present m (of_nat i) WEST;
          m2 = set_wall_present m1 (of_nat (15 * 16 + i)) EAST;
          m3 = set_wall_present m2 (of_nat (i * 16)) SOUTH
      in set_wall_present m3 (of_nat (16 * i + 15)) NORTH)"

definition initialise_maze :: "maze \<Rightarrow> maze" where
  "initialise_maze m =
     (let m0 = m\<lparr>m_cost := (\<lambda>_. 0), m_walls := (\<lambda>_. 0)\<rparr>;
          m1 = fold boundary_walls [0..<16] m0;
          m2 = set_wall_present m1 START EAST
      in set_wall_absent m2 START NORTH)"

subsection \<open>Costs of neighbours\<close>

definition neighbour_cost :: "maze \<Rightarrow> u8 \<Rightarrow> u8 \<Rightarrow> u8" where
  "neighbour_cost m cell direction =
     (let wallData = m_walls m cell in
      if direction = NORTH then
        (if wallData AND push_bit (unat NORTH) 1 = 0 then m_cost m (cell_north cell) else MAX_COST)
      else if direction = EAST then
        (if wallData AND push_bit (unat EAST) 1 = 0 then m_cost m (cell_east cell) else MAX_COST)
      else if direction = SOUTH then
        (if wallData AND push_bit (unat SOUTH) 1 = 0 then m_cost m (cell_south cell) else MAX_COST)
      else if direction = WEST then
        (if wallData AND push_bit (unat WEST) 1 = 0 then m_cost m (cell_west cell) else MAX_COST)
      else MAX_COST)"

subsection \<open>Flooding\<close>

text \<open>
  Modelled from the spec: \<open>Queue<uint8_t>\<close> of \<open>src/queue.h\<close>, which is not among the
  sources. The spec describes it as a generic first-in-first-out work queue with capacity
  sufficient for all 256 cells: \<open>add\<close> appends at the back, \<open>head\<close> removes and returns the
  front element, \<open>size\<close> counts the elements. It is a list here, the front of the queue first.
\<close>

type_synonym queue = "u8 list"

definition queue_add :: "queue \<Rightarrow> u8 \<Rightarrow> queue" where
  "queue_add q item = q @ [item]"

text \<open>
  One pass of the body of the direction loop. \<open>newCost\<close> is the \<open>uint16_t\<close> computed before
  the loop; the comparison \<open>m_cost[nextCell] > newCost\<close> is between the promoted byte and
  \<open>newCost\<close>; the assignment converts \<open>newCost\<close> back to a byte.
\<close>

definition flood_direction :: "maze \<Rightarrow> u8 \<Rightarrow> u16 \<Rightarrow> u8 \<Rightarrow> (u8 \<Rightarrow> u8) \<times> queue \<Rightarrow> (u8 \<Rightarrow> u8) \<times> queue" where
  "flood_direction m here newCost direction s =
     (case s of (cost, q) \<Rightarrow>
        if is_exit m here direction then
          (let nextCell = neighbour here direction in
           if newCost < ucast (cost nextCell)
           then (cost(nextCell := ucast newCost), queue_add q nextCell)
           else (cost, q))
        else (cost, q))"

text \<open>One pass of the body of the \<open>while\<close> loop, after \<open>here\<close> has been taken off the queue.\<close>

definition flood_cell :: "maze \<Rightarrow> u8 \<Rightarrow> (u8 \<Rightarrow> u8) \<times> queue \<Rightarrow> (u8 \<Rightarrow> u8) \<times> queue" where
  "flood_cell m here s =
     (let newCost = ucast (fst s here) + 1 in
      fold (flood_direction m here newCost) [0, 1, 2, 3] s)"

text \<open>
  The \<open>while\<close> loop. The guard \<open>queue.size() > 0\<close> fails on the empty list, and
  \<open>queue.head()\<close> splits a non-empty list into its first cell and the rest. Each store
  lowers a cost byte and adds one cell to the queue, and each pass takes one cell off the
  queue, so twice the sum of all costs plus the queue length decreases with every pass:
  the loop terminates for every wall array.
\<close>

definition cost_sum :: "(u8 \<Rightarrow> u8) \<Rightarrow> nat" where
  "cost_sum cost = (\<Sum>c\<in>UNIV. unat (cost c))"

lemma cost_sum_upd:
  assumes "unat v < unat (cost n)"
  shows "cost_sum (cost(n := v)) < cost_sum cost"
proof -
  have a: "cost_sum cost = unat (cost n) + (\<Sum>c\<in>UNIV - {n}. unat (cost c))"
    unfolding cost_sum_def by (simp add: sum.remove [of UNIV n])
  have b: "cost_sum (cost(n := v)) = unat v + (\<Sum>c\<in>UNIV - {n}. unat ((cost(n := v)) c))"
    unfolding cost_sum_def by (simp add: sum.remove [of UNIV n])
  have c: "(\<Sum>c\<in>UNIV - {n}. unat ((cost(n := v)) c)) = (\<Sum>c\<in>UNIV - {n}. unat (cost c))"
    by (rule sum.cong) auto
  show ?thesis using a b c assms by simp
qed

lemma unat_ucast_u8_u16: "unat (ucast (x :: u8) :: u16) = unat x"
proof -
  have "unat x < 2 ^ 8" using unsigned_less [of x] by simp
  then have "unat x < 2 ^ 16" by simp
  then show ?thesis by (simp add: unsigned_ucast_eq take_bit_nat_eq_self)
qed

lemma ucast_lower:
  fixes nc :: u16 and old :: u8
  assumes "nc < ucast old"
  shows "unat (ucast nc :: u8) < unat old"
proof -
  have "unat nc < unat (ucast old :: u16)" using assms by (simp add: word_less_nat_alt)
  moreover have "unat (ucast nc :: u8) \<le> unat nc"
    by (simp add: unsigned_ucast_eq take_bit_nat_less_eq_self)
  ultimately show ?thesis by (simp add: unat_ucast_u8_u16)
qed

lemma flood_direction_measure:
  "flood_direction m here nc d (cost, q) = (cost', q') \<Longrightarrow>
     2 * cost_sum cost' + length q' \<le> 2 * cost_sum cost + length q"
  using cost_sum_upd [OF ucast_lower, of nc cost "neighbour here d"]
  by (auto simp: flood_direction_def queue_add_def Let_def split: if_splits)

lemma flood_cell_unfold:
  "flood_cell m here s =
     flood_direction m here (ucast (fst s here) + 1) 3
       (flood_direction m here (ucast (fst s here) + 1) 2
         (flood_direction m here (ucast (fst s here) + 1) 1
           (flood_direction m here (ucast (fst s here) + 1) 0 s)))"
  by (simp add: flood_cell_def Let_def)

lemma flood_cell_measure:
  assumes "flood_cell m here (cost, q) = (cost', q')"
  shows "2 * cost_sum cost' + length q' \<le> 2 * cost_sum cost + length q"
proof -
  define nc :: u16 where "nc = ucast (cost here) + 1"
  obtain c1 q1 where s1: "flood_direction m here nc 0 (cost, q) = (c1, q1)" by fastforce
  obtain c2 q2 where s2: "flood_direction m here nc 1 (c1, q1) = (c2, q2)" by fastforce
  obtain c3 q3 where s3: "flood_direction m here nc 2 (c2, q2) = (c3, q3)" by fastforce
  obtain c4 q4 where s4: "flood_direction m here nc 3 (c3, q3) = (c4, q4)" by fastforce
  have "flood_cell m here (cost, q) = (c4, q4)"
    by (simp add: flood_cell_unfold nc_def [symmetric] s1 s2 s3 s4)
  with assms have e: "c4 = cost'" "q4 = q'" by simp_all
  show ?thesis
    using flood_direction_measure [OF s1] flood_direction_measure [OF s2]
      flood_direction_measure [OF s3] flood_direction_measure [OF s4] e by simp
qed

function flood_loop :: "maze \<Rightarrow> (u8 \<Rightarrow> u8) \<times> queue \<Rightarrow> u8 \<Rightarrow> u8" where
  "flood_loop m (cost, []) = cost"
| "flood_loop m (cost, here # q) = flood_loop m (flood_cell m here (cost, q))"
  by pat_completeness auto
termination
proof (relation "measure (\<lambda>(m, s). 2 * cost_sum (fst s) + length (snd s))")
  show "wf (measure (\<lambda>(m, s). 2 * cost_sum (fst s) + length (snd s)))" by simp
next
  fix m :: maze and cost :: "u8 \<Rightarrow> u8" and here :: u8 and q :: queue
  obtain cost' q' where s: "flood_cell m here (cost, q) = (cost', q')" by fastforce
  show "((m, flood_cell m here (cost, q)), (m, cost, here # q))
          \<in> measure (\<lambda>(m, s). 2 * cost_sum (fst s) + length (snd s))"
    using flood_cell_measure [OF s] by (simp add: s)
qed

definition flood_maze :: "maze \<Rightarrow> u8 \<Rightarrow> maze" where
  "flood_maze m target =
     (let cost0 = (\<lambda>_. MAX_COST);
          cost1 = cost0(target := 0);
          q = queue_add [] target
      in m\<lparr>m_cost := flood_loop m (cost1, q)\<rparr>)"

subsection \<open>Choosing a direction\<close>

text \<open>
  The block repeated four times in \<open>direction_to_smallest\<close>: read the neighbour's cost into
  the \<open>uint16_t nextCost\<close> and keep it, with its direction, when it is strictly smaller.
\<close>

definition smaller_neighbour :: "maze \<Rightarrow> u8 \<Rightarrow> u8 \<Rightarrow> u16 \<times> u8 \<Rightarrow> u16 \<times> u8" where
  "smaller_neighbour m cell nextDirection s =
     (case s of (smallestCost, smallestDirection) \<Rightarrow>
        (let nextCost = ucast (neighbour_cost m cell nextDirection) in
         if nextCost < smallestCost then (nextCost, nextDirection)
         else (smallestCost, smallestDirection)))"

text \<open>\<open>(startDirection + k) % 4\<close>, computed in \<open>int\<close> and stored in a \<open>uint8_t\<close>.\<close>

definition turned :: "u8 \<Rightarrow> nat \<Rightarrow> u8" where
  "turned startDirection k = of_nat ((unat startDirection + k) mod 4)"

definition direction_to_smallest :: "maze \<Rightarrow> u8 \<Rightarrow> u8 \<Rightarrow> u8" where
  "direction_to_smallest m cell startDirection =
     (let s0 = (ucast (m_cost m cell), INVALID_DIRECTION);
          s1 = smaller_neighbour m cell startDirection s0;
          s2 = smaller_neighbour m cell (turned startDirection 1) s1;
          s3 = smaller_neighbour m cell (turned startDirection 3) s2;
          s4 = smaller_neighbour m cell (turned startDirection 2) s3
      in if fst s4 = ucast MAX_COST then 0 else snd s4)"

subsection \<open>Rendering directions\<close>

text \<open>
  \<open>print_with_directions\<close> floods towards the goal and then prints, for every cell, the
  character \<open>dirChars[direction]\<close>, where \<open>direction\<close> is the result of
  \<open>direction_to_smallest(cell, NORTH)\<close>, or 4 at the goal. This is the index it uses.
\<close>

definition dirChars :: string where
  "dirChars = ''^>v<*''"

definition direction_glyph_index :: "maze \<Rightarrow> u8 \<Rightarrow> u8" where
  "direction_glyph_index m cell =
     (let m' = flood_maze m (maze_goal m);
          direction = direction_to_smallest m' cell NORTH
      in if cell = maze_goal m' then 4 else direction)"

subsection \<open>Vocabulary of the properties\<close>

text \<open>
  The scan order of \<open>direction_to_smallest\<close> as the specification names it: ahead, right,
  left, behind of the preferred direction.
\<close>

definition ahead_right_left_behind :: "u8 \<Rightarrow> u8 list" where
  "ahead_right_left_behind startDirection =
     [startDirection, turned startDirection 1, turned startDirection 3, turned startDirection 2]"

text \<open>
  The opposite compass direction, \<open>(d + 2) mod 4\<close>, and the side of a cell that faces off
  the 16 by 16 grid: there \<open>neighbour\<close> wraps around to a cell that is not adjacent.
\<close>

definition opposite :: "u8 \<Rightarrow> u8" where
  "opposite d = of_nat ((unat d + 2) mod 4)"

definition off_grid :: "u8 \<Rightarrow> u8 \<Rightarrow> bool" where
  "off_grid cell direction \<longleftrightarrow>
     direction = NORTH \<and> row cell = 15 \<or> direction = EAST \<and> col cell = 15 \<or>
     direction = SOUTH \<and> row cell = 0 \<or> direction = WEST \<and> col cell = 0"

text \<open>A sequence of calls of the two wall mutators, run in order.\<close>

datatype wall_call = Present u8 u8 | Absent u8 u8

fun call :: "wall_call \<Rightarrow> maze \<Rightarrow> maze" where
  "call (Present cell direction) m = set_wall_present m cell direction"
| "call (Absent cell direction) m = set_wall_absent m cell direction"

fun direction_of :: "wall_call \<Rightarrow> u8" where
  "direction_of (Present cell direction) = direction"
| "direction_of (Absent cell direction) = direction"

text \<open>
  Wall symmetry on the whole torus of cells: every wall bit agrees with the mirrored bit
  of the cell that \<open>neighbour\<close> computes, adjacent or wrapped around.
\<close>

definition wall_symmetric :: "maze \<Rightarrow> bool" where
  "wall_symmetric m \<longleftrightarrow>
     (\<forall>c d. d < 4 \<longrightarrow> is_wall m c d = is_wall m (neighbour c d) (opposite d))"

text \<open>The eight wall bits that pass \<open>i\<close> of the boundary loop sets.\<close>

definition edge :: "nat \<Rightarrow> u8 \<Rightarrow> u8 \<Rightarrow> bool" where
  "edge i c d \<longleftrightarrow>
     c = of_nat i \<and> d = WEST \<or> c = neighbour (of_nat i) WEST \<and> d = EAST \<or>
     c = of_nat (15 * 16 + i) \<and> d = EAST \<or> c = neighbour (of_nat (15 * 16 + i)) EAST \<and> d = WEST \<or>
     c = of_nat (i * 16) \<and> d = SOUTH \<or> c = neighbour (of_nat (i * 16)) SOUTH \<and> d = NORTH \<or>
     c = of_nat (16 * i + 15) \<and> d = NORTH \<or> c = neighbour (of_nat (16 * i + 15)) NORTH \<and> d = SOUTH"

text \<open>
  Two small mazes without walls for concrete instances: one where the neighbours east and
  south of cell \<open>0x11\<close> share the lowest cost, one where only cell \<open>0x22\<close> has been reached.
\<close>

definition tie_maze :: maze where
  "tie_maze =
     Maze\<lparr>m_cost := (\<lambda>_. MAX_COST)(0x11 := 9, 0x12 := 7, 0x21 := 5, 0x10 := 5, 0x01 := 6)\<rparr>"


text \<open>
  The Manhattan distance between two cells, and the open grid: a wall state whose wall
  bits are exactly the sides that face off the grid.
\<close>

definition manhattan :: "u8 \<Rightarrow> u8 \<Rightarrow> nat" where
  "manhattan c t = nat \<bar>int (row c) - int (row t)\<bar> + nat \<bar>int (col c) - int (col t)\<bar>"

definition open_grid :: "maze \<Rightarrow> bool" where
  "open_grid m \<longleftrightarrow> (\<forall>c d. d < 4 \<longrightarrow> is_wall m c d = off_grid c d)"

text \<open>
  The cells the flood can reach from the target: it leaves a cell \<open>c\<close> in direction \<open>d\<close>
  when \<open>is_exit c d\<close> holds, that is, when the wall bit of \<open>c\<close> itself is clear.
\<close>

inductive reach :: "maze \<Rightarrow> u8 \<Rightarrow> u8 \<Rightarrow> bool" for m :: maze and t :: u8 where
  target: "reach m t t"
| exit: "reach m t c \<Longrightarrow> d < 4 \<Longrightarrow> is_exit m c d \<Longrightarrow> reach m t (neighbour c d)"

code_pred reach .

text \<open>
  Invariants of the \<open>while\<close> loop of \<open>flood_maze\<close>. A cell is relaxed when none of its
  open neighbours costs more than one step more than the cell itself. Between two passes
  every reached cell that is not waiting in the queue is relaxed, and no cost is below the
  Manhattan distance; inside a pass the same holds apart from the cell \<open>here\<close> being
  expanded, whose neighbours in the directions \<open>D\<close> already done are within one step.
\<close>

definition relaxed :: "maze \<Rightarrow> (u8 \<Rightarrow> u8) \<Rightarrow> u8 \<Rightarrow> bool" where
  "relaxed m cost c \<longleftrightarrow>
     (\<forall>d<4. is_exit m c d \<longrightarrow> unat (cost (neighbour c d)) \<le> unat (cost c) + 1)"

definition flood_inv :: "maze \<Rightarrow> u8 \<Rightarrow> (u8 \<Rightarrow> u8) \<times> queue \<Rightarrow> bool" where
  "flood_inv m t s \<longleftrightarrow>
     (case s of (cost, q) \<Rightarrow>
        cost t = 0 \<and>
        (\<forall>c. cost c \<noteq> MAX_COST \<longrightarrow> manhattan c t \<le> unat (cost c)) \<and>
        (\<forall>c. cost c \<noteq> MAX_COST \<longrightarrow> c \<in> set q \<or> relaxed m cost c))"

definition cell_inv :: "maze \<Rightarrow> u8 \<Rightarrow> u8 \<Rightarrow> u8 \<Rightarrow> u8 set \<Rightarrow> (u8 \<Rightarrow> u8) \<times> queue \<Rightarrow> bool" where
  "cell_inv m t here c0 D s \<longleftrightarrow>
     (case s of (cost, q) \<Rightarrow>
        cost t = 0 \<and> cost here = c0 \<and>
        (\<forall>c. cost c \<noteq> MAX_COST \<longrightarrow> manhattan c t \<le> unat (cost c)) \<and>
        (\<forall>c. cost c \<noteq> MAX_COST \<longrightarrow> c = here \<or> c \<in> set q \<or> relaxed m cost c) \<and>
        (\<forall>d\<in>D. is_exit m here d \<longrightarrow> unat (cost (neighbour here d)) \<le> unat c0 + 1))"

definition reach_inv :: "maze \<Rightarrow> u8 \<Rightarrow> (u8 \<Rightarrow> u8) \<times> queue \<Rightarrow> bool" where
  "reach_inv m t s \<longleftrightarrow>
     (case s of (cost, q) \<Rightarrow>
        cost t = 0 \<and> (\<forall>c. cost c \<noteq> MAX_COST \<longrightarrow> reach m t c) \<and> (\<forall>c\<in>set q. reach m t c))"

text \<open>
  The states a \<open>Maze\<close> object can be in. Its members are private, so a state is the
  freshly constructed object or the result of a public member function that writes to the
  object, applied to a state (\<open>print_with_directions\<close> writes through \<open>flood_maze\<close> only;
  the remaining member functions do not write).
\<close>

inductive maze_state :: "maze \<Rightarrow> bool" where
  fresh: "maze_state Maze"
| goal: "maze_state m \<Longrightarrow> maze_state (set_maze_goal m goal_cell)"
| visited: "maze_state m \<Longrightarrow> maze_state (mark_cell_visited m cell)"
| present: "maze_state m \<Longrightarrow> maze_state (set_wall_present m cell direction)"
| absent: "maze_state m \<Longrightarrow> maze_state (set_wall_absent m cell direction)"
| initialise: "maze_state m \<Longrightarrow> maze_state (initialise_maze m)"
| flood: "maze_state m \<Longrightarrow> maze_state (flood_maze m target)"

text \<open>
  Two more mazes for concrete instances: the initialised maze with the east wall of the
  start cell taken away again, which leaves the perimeter only, and the initialised maze
  with cell \<open>0x35\<close> walled in on all four sides.
\<close>

definition open_maze :: maze where
  "open_maze = set_wall_absent (initialise_maze Maze) START EAST"

definition boxed_maze :: maze where
  "boxed_maze =
     fold call [Present 0x35 NORTH, Present 0x35 EAST, Present 0x35 SOUTH, Present 0x35 WEST]
       (initialise_maze Maze)"

section \<open>Properties\<close>

subsection \<open>The default goal\<close>

text \<open>
  Claim C3, as stated: the goal a freshly constructed maze reports is cell \<open>0x22\<close>, row 2
  and column 2, and the start is cell 0. The member initialiser is \<open>0x077\<close>, so the claim
  fails: the macro \<open>GOAL\<close> is \<open>0x22\<close>, but the constructor does not use it.
\<close>

theorem default_goal_counterexample: "maze_goal Maze \<noteq> 0x22"
  by (simp add: maze_goal_def Maze_def)

text \<open>
  Claim C3, amended: the goal a freshly constructed maze reports, before any
  \<open>set_maze_goal\<close>, is cell \<open>0x77 = 119\<close>, row 7 and column 7 under \<open>cell = row + 16 * column\<close>;
  the macro \<open>GOAL\<close> names cell \<open>0x22\<close> (row 2, column 2) and the start is cell 0 (row 0,
  column 0).
\<close>

theorem default_goal:
  "maze_goal Maze = 0x77 \<and> row (maze_goal Maze) = 7 \<and> col (maze_goal Maze) = 7
   \<and> row GOAL = 2 \<and> col GOAL = 2 \<and> row START = 0 \<and> col START = 0"
  by (simp add: maze_goal_def Maze_def row_def col_def)

subsection \<open>Directions outside the compass\<close>

text \<open>
  Claim C7: for every cell and every direction other than 0, 1, 2, 3, both
  \<open>set_wall_present\<close> and \<open>set_wall_absent\<close> return the maze unchanged (walls, costs and
  goal), without any error.
\<close>

theorem invalid_direction_ignored:
  assumes "direction \<notin> {NORTH, EAST, SOUTH, WEST}"
  shows "set_wall_present m cell direction = m \<and> set_wall_absent m cell direction = m"
  using assms by (simp add: set_wall_present_def set_wall_absent_def)

theorem invalid_direction_ignored_witness:
  "(4::u8) \<notin> {NORTH, EAST, SOUTH, WEST}
   \<and> set_wall_present (initialise_maze Maze) 0x35 4 = initialise_maze Maze
   \<and> set_wall_absent (initialise_maze Maze) 0x35 4 = initialise_maze Maze"
  using invalid_direction_ignored
    [where direction = 4 and m = "initialise_maze Maze" and cell = "0x35"]
  by simp

subsection \<open>Wall bits\<close>

lemma is_wall_bit: "is_wall m c d \<longleftrightarrow> bit (m_walls m c) (unat d)"
  by (simp add: is_wall_def bit_iff_and_push_bit_not_eq_0)

lemma is_exit_bit: "is_exit m c d \<longleftrightarrow> \<not> bit (m_walls m c) (unat d)"
  by (simp add: is_exit_def bit_iff_and_push_bit_not_eq_0)

lemma bit_or_mask: "n < 8 \<Longrightarrow> bit ((w :: u8) OR push_bit n 1) k \<longleftrightarrow> bit w k \<or> k = n"
  by (auto simp: bit_or_iff bit_exp_iff)

lemma bit_and_not_mask:
  "n < 8 \<Longrightarrow> bit ((w :: u8) AND NOT (push_bit n 1)) k \<longleftrightarrow> bit w k \<and> k \<noteq> n"
  by (auto simp: bit_and_iff bit_not_iff bit_exp_iff dest: bit_imp_le_length)

lemma unat_eq_dir: "unat (d' :: u8) = unat d \<longleftrightarrow> d' = d"
  by (simp add: word_unat_eq_iff)

lemma is_wall_or_wall:
  assumes "d < 4"
  shows "is_wall (or_wall m c d) c' d' \<longleftrightarrow> is_wall m c' d' \<or> (c' = c \<and> d' = d)"
proof -
  from assms have "unat d < 8" by (simp add: word_less_nat_alt)
  then show ?thesis
    by (simp add: is_wall_bit or_wall_def bit_or_mask unat_eq_dir del: push_bit_of_1)
qed

lemma is_wall_and_not_wall:
  assumes "d < 4"
  shows "is_wall (and_not_wall m c d) c' d' \<longleftrightarrow> is_wall m c' d' \<and> \<not> (c' = c \<and> d' = d)"
proof -
  from assms have "unat d < 8" by (simp add: word_less_nat_alt)
  then show ?thesis
    by (simp add: is_wall_bit and_not_wall_def bit_and_not_mask unat_eq_dir del: push_bit_of_1)
qed

lemma less_4_cases: "(d :: u8) < 4 \<longleftrightarrow> d = 0 \<or> d = 1 \<or> d = 2 \<or> d = 3"
proof
  assume "d < 4"
  then have "unat d < 4" by (simp add: word_less_nat_alt)
  then have "unat d = unat (0 :: u8) \<or> unat d = unat (1 :: u8) \<or> unat d = unat (2 :: u8)
      \<or> unat d = unat (3 :: u8)" by auto
  then show "d = 0 \<or> d = 1 \<or> d = 2 \<or> d = 3"
    unfolding unat_eq_dir .
qed auto

lemma opposite_simps:
  "opposite 0 = 2" "opposite 1 = 3" "opposite 2 = 0" "opposite 3 = 1"
  by (simp_all add: opposite_def)

lemma is_wall_set_wall_present:
  assumes "d < 4"
  shows "is_wall (set_wall_present m c d) c' d' \<longleftrightarrow>
           is_wall m c' d' \<or> (c' = c \<and> d' = d) \<or> (c' = neighbour c d \<and> d' = opposite d)"
  using assms unfolding less_4_cases
  by (auto simp: set_wall_present_def is_wall_or_wall opposite_simps)

lemma is_wall_set_wall_absent:
  assumes "d < 4"
  shows "is_wall (set_wall_absent m c d) c' d' \<longleftrightarrow>
           is_wall m c' d' \<and> \<not> (c' = c \<and> d' = d) \<and> \<not> (c' = neighbour c d \<and> d' = opposite d)"
  using assms unfolding less_4_cases
  by (auto simp: set_wall_absent_def is_wall_and_not_wall opposite_simps)

lemma neighbour_back: "d < 4 \<Longrightarrow> neighbour (neighbour c d) (opposite d) = c"
  unfolding less_4_cases
  by (auto simp: neighbour_def opposite_simps cell_north_def cell_east_def cell_south_def
      cell_west_def)

lemma opposite_opposite: "d < 4 \<Longrightarrow> opposite (opposite d) = d \<and> opposite d < 4 \<and> opposite d \<noteq> d"
  unfolding less_4_cases by (auto simp: opposite_simps)

subsection \<open>What the wall mutators leave alone\<close>

lemma or_wall_high: "d < 4 \<Longrightarrow> (w OR push_bit (unat (d :: u8)) 1) AND VISITED = (w :: u8) AND VISITED"
  unfolding less_4_cases by (auto simp: word_ao_dist)

lemma and_not_wall_high:
  "d < 4 \<Longrightarrow> (w AND NOT (push_bit (unat (d :: u8)) 1)) AND VISITED = (w :: u8) AND VISITED"
  unfolding less_4_cases by (auto simp: word_bw_assocs)

lemma or_wall_frame:
  "m_goal (or_wall m c d) = m_goal m" "m_cost (or_wall m c d) = m_cost m"
  "c' \<noteq> c \<Longrightarrow> m_walls (or_wall m c d) c' = m_walls m c'"
  "d < 4 \<Longrightarrow> m_walls (or_wall m c d) c' AND VISITED = m_walls m c' AND VISITED"
  by (simp_all add: or_wall_def or_wall_high del: push_bit_of_1)

lemma and_not_wall_frame:
  "m_goal (and_not_wall m c d) = m_goal m" "m_cost (and_not_wall m c d) = m_cost m"
  "c' \<noteq> c \<Longrightarrow> m_walls (and_not_wall m c d) c' = m_walls m c'"
  "d < 4 \<Longrightarrow> m_walls (and_not_wall m c d) c' AND VISITED = m_walls m c' AND VISITED"
  by (simp_all add: and_not_wall_def and_not_wall_high del: push_bit_of_1)

lemma set_wall_present_frame:
  assumes "direction < 4"
  shows "m_goal (set_wall_present m cell direction) = m_goal m"
    and "m_cost (set_wall_present m cell direction) = m_cost m"
    and "c \<noteq> cell \<Longrightarrow> c \<noteq> neighbour cell direction \<Longrightarrow>
           m_walls (set_wall_present m cell direction) c = m_walls m c"
    and "m_walls (set_wall_present m cell direction) c AND VISITED = m_walls m c AND VISITED"
  using assms unfolding less_4_cases
  by (auto simp: set_wall_present_def or_wall_frame)

lemma set_wall_absent_frame:
  assumes "direction < 4"
  shows "m_goal (set_wall_absent m cell direction) = m_goal m"
    and "m_cost (set_wall_absent m cell direction) = m_cost m"
    and "c \<noteq> cell \<Longrightarrow> c \<noteq> neighbour cell direction \<Longrightarrow>
           m_walls (set_wall_absent m cell direction) c = m_walls m c"
    and "m_walls (set_wall_absent m cell direction) c AND VISITED = m_walls m c AND VISITED"
  using assms unfolding less_4_cases
  by (auto simp: set_wall_absent_def and_not_wall_frame)

text \<open>
  Claim C10: for every cell and every direction in 0..3, \<open>set_wall_present\<close> and
  \<open>set_wall_absent\<close> change at most the low four bits of the wall bytes of \<open>cell\<close> and of
  \<open>neighbour cell direction\<close>: the goal and the whole cost array are unchanged, every
  other cell's wall byte is unchanged, and the visited bits \<open>0xF0\<close> of every wall byte are
  unchanged.
\<close>

theorem wall_frame:
  assumes "direction < 4"
    and "m' = set_wall_present m cell direction \<or> m' = set_wall_absent m cell direction"
  shows "m_goal m' = m_goal m \<and> m_cost m' = m_cost m
       \<and> (\<forall>c. c \<noteq> cell \<and> c \<noteq> neighbour cell direction \<longrightarrow> m_walls m' c = m_walls m c)
       \<and> (\<forall>c. m_walls m' c AND VISITED = m_walls m c AND VISITED)"
  using assms set_wall_present_frame [where direction = direction and m = m and cell = cell]
    set_wall_absent_frame [where direction = direction and m = m and cell = cell]
  by auto

theorem wall_frame_witness:
  "(1::u8) < 4
   \<and> m_goal (set_wall_present (initialise_maze Maze) 0x35 EAST) = m_goal (initialise_maze Maze)
   \<and> m_cost (set_wall_absent (initialise_maze Maze) 0x35 EAST) = m_cost (initialise_maze Maze)
   \<and> m_walls (set_wall_present (initialise_maze Maze) 0x35 EAST) 0x36
       = m_walls (initialise_maze Maze) 0x36
   \<and> m_walls (set_wall_absent (initialise_maze Maze) 0x35 EAST) 0x35 AND VISITED
       = m_walls (initialise_maze Maze) 0x35 AND VISITED"
proof -
  let ?m = "initialise_maze Maze"
  have n: "(0x36::u8) \<noteq> 0x35 \<and> 0x36 \<noteq> neighbour 0x35 EAST"
    by (simp add: neighbour_def cell_east_def)
  from wall_frame [where direction = 1 and m = ?m and cell = "0x35"
      and m' = "set_wall_present ?m 0x35 1"]
    wall_frame [where direction = 1 and m = ?m and cell = "0x35"
      and m' = "set_wall_absent ?m 0x35 1"] n
  show ?thesis by simp
qed

subsection \<open>Wall symmetry\<close>

lemma symmetric_present: "wall_symmetric m \<Longrightarrow> wall_symmetric (set_wall_present m c d)"
proof (cases "d < 4")
  case True
  assume s: "wall_symmetric m"
  show ?thesis
    unfolding wall_symmetric_def
  proof (intro allI impI)
    fix c' d' :: u8
    assume d': "d' < 4"
    from s d' have "is_wall m c' d' = is_wall m (neighbour c' d') (opposite d')"
      by (simp add: wall_symmetric_def)
    moreover have "c' = c \<and> d' = d \<longleftrightarrow> neighbour c' d' = neighbour c d \<and> opposite d' = opposite d"
      using neighbour_back [OF d'] neighbour_back [OF True] opposite_opposite [OF d']
        opposite_opposite [OF True] by metis
    moreover have "c' = neighbour c d \<and> d' = opposite d \<longleftrightarrow> neighbour c' d' = c \<and> opposite d' = d"
      using neighbour_back [OF d'] neighbour_back [OF True] opposite_opposite [OF d']
        opposite_opposite [OF True] by metis
    ultimately show "is_wall (set_wall_present m c d) c' d'
        = is_wall (set_wall_present m c d) (neighbour c' d') (opposite d')"
      by (simp only: is_wall_set_wall_present [OF True] opposite_opposite [OF True]) blast
  qed
next
  case False
  then have "set_wall_present m c d = m"
    unfolding less_4_cases by (simp add: set_wall_present_def)
  then show "wall_symmetric m \<Longrightarrow> ?thesis" by simp
qed

lemma symmetric_absent: "wall_symmetric m \<Longrightarrow> wall_symmetric (set_wall_absent m c d)"
proof (cases "d < 4")
  case True
  assume s: "wall_symmetric m"
  show ?thesis
    unfolding wall_symmetric_def
  proof (intro allI impI)
    fix c' d' :: u8
    assume d': "d' < 4"
    from s d' have "is_wall m c' d' = is_wall m (neighbour c' d') (opposite d')"
      by (simp add: wall_symmetric_def)
    moreover have "c' = c \<and> d' = d \<longleftrightarrow> neighbour c' d' = neighbour c d \<and> opposite d' = opposite d"
      using neighbour_back [OF d'] neighbour_back [OF True] opposite_opposite [OF d']
        opposite_opposite [OF True] by metis
    moreover have "c' = neighbour c d \<and> d' = opposite d \<longleftrightarrow> neighbour c' d' = c \<and> opposite d' = d"
      using neighbour_back [OF d'] neighbour_back [OF True] opposite_opposite [OF d']
        opposite_opposite [OF True] by metis
    ultimately show "is_wall (set_wall_absent m c d) c' d'
        = is_wall (set_wall_absent m c d) (neighbour c' d') (opposite d')"
      by (simp only: is_wall_set_wall_absent [OF True] opposite_opposite [OF True]) blast
  qed
next
  case False
  then have "set_wall_absent m c d = m"
    unfolding less_4_cases by (simp add: set_wall_absent_def)
  then show "wall_symmetric m \<Longrightarrow> ?thesis" by simp
qed

lemma symmetric_calls: "wall_symmetric m \<Longrightarrow> wall_symmetric (fold call calls m)"
proof (induction calls arbitrary: m)
  case Nil
  then show ?case by simp
next
  case (Cons x calls)
  have "wall_symmetric (call x m)"
    using Cons.prems by (cases x) (simp_all add: symmetric_present symmetric_absent)
  then show ?case using Cons.IH by simp
qed

lemma symmetric_open: "\<forall>c. m_walls m c = 0 \<Longrightarrow> wall_symmetric m"
  by (simp add: wall_symmetric_def is_wall_def)

lemma symmetric_boundary: "wall_symmetric m \<Longrightarrow> wall_symmetric (fold boundary_walls ns m)"
proof (induction ns arbitrary: m)
  case Nil
  then show ?case by simp
next
  case (Cons n ns)
  have "wall_symmetric (boundary_walls n m)"
    using Cons.prems by (simp add: boundary_walls_def Let_def symmetric_present)
  then show ?case using Cons.IH by simp
qed

lemma symmetric_initialise: "wall_symmetric (initialise_maze m)"
proof -
  have "wall_symmetric (m\<lparr>m_cost := \<lambda>_. 0, m_walls := \<lambda>_. 0\<rparr>)"
    by (rule symmetric_open) simp
  then show ?thesis
    by (simp add: initialise_maze_def Let_def symmetric_boundary symmetric_present
        symmetric_absent)
qed

text \<open>
  Claim C2: start from the initialised maze, or from a maze without any wall bit, and run
  any sequence of \<open>set_wall_present\<close> and \<open>set_wall_absent\<close> calls with directions in 0..3.
  Then for every cell \<open>c\<close> and direction \<open>d\<close> in 0..3 whose side is not off the grid,
  \<open>is_wall c d\<close> equals \<open>is_wall (neighbour c d) (opposite d)\<close>. (By \<open>symmetric_calls\<close> the
  same holds across the wrap-around as well.)
\<close>

theorem wall_symmetry:
  assumes "initial = initialise_maze m \<or> (\<forall>c. m_walls initial c = 0)"
    and "\<forall>x\<in>set calls. direction_of x < 4"
    and "d < 4"
    and "\<not> off_grid c d"
  shows "is_wall (fold call calls initial) c d
       = is_wall (fold call calls initial) (neighbour c d) (opposite d)"
proof -
  from assms(1) have "wall_symmetric initial"
    using symmetric_initialise symmetric_open by blast
  then have "wall_symmetric (fold call calls initial)"
    by (rule symmetric_calls)
  with assms(3) show ?thesis
    by (simp add: wall_symmetric_def)
qed

theorem wall_symmetry_witness:
  "(0::u8) < 4 \<and> \<not> off_grid 0x11 NORTH
   \<and> is_wall (fold call [Present 0x35 EAST, Absent 0x35 EAST, Present 0x11 NORTH]
         (initialise_maze Maze)) 0x11 NORTH
     = is_wall (fold call [Present 0x35 EAST, Absent 0x35 EAST, Present 0x11 NORTH]
         (initialise_maze Maze)) 0x12 SOUTH"
  using wall_symmetry [where initial = "initialise_maze Maze" and m = Maze
      and calls = "[Present 0x35 1, Absent 0x35 1, Present 0x11 0]" and d = 0 and c = "0x11"]
  by (simp add: off_grid_def row_def col_def neighbour_def cell_north_def opposite_simps)

subsection \<open>The initialised maze\<close>

lemma unat_u8_less: "unat (c :: u8) < 256"
  using unsigned_less [of c] by simp

lemma unat_plus_u8: "unat ((c :: u8) + of_nat k) = (unat c + k) mod 256"
  by (simp add: unat_word_ariths unat_of_nat mod_add_right_eq)

lemma unat_of_nat_u8: "unat (of_nat n :: u8) = n mod 256"
  by (simp add: unat_of_nat)

lemma u8_eq_iff: "(a :: u8) = b \<longleftrightarrow> unat a = unat b"
  by (simp add: word_unat_eq_iff)

lemma unat_neighbour:
  "unat (neighbour c 0) = (unat c + 1) mod 256"
  "unat (neighbour c 1) = (unat c + 16) mod 256"
  "unat (neighbour c 2) = (unat c + 255) mod 256"
  "unat (neighbour c 3) = (unat c + 240) mod 256"
  using unat_plus_u8 [of c 1] unat_plus_u8 [of c 16] unat_plus_u8 [of c 255]
    unat_plus_u8 [of c 240]
  by (simp_all add: neighbour_def cell_north_def cell_east_def cell_south_def cell_west_def)

lemma is_wall_boundary_walls:
  "is_wall (boundary_walls i m) c d \<longleftrightarrow> is_wall m c d \<or> edge i c d"
  by (auto simp: boundary_walls_def Let_def is_wall_set_wall_present opposite_simps edge_def)

lemma is_wall_boundary_loop:
  "is_wall (fold boundary_walls [0..<n] m) c d \<longleftrightarrow> is_wall m c d \<or> (\<exists>i<n. edge i c d)"
  by (induction n) (auto simp: is_wall_boundary_walls less_Suc_eq)

lemma edges_on_perimeter:
  "\<forall>i\<in>set [0..<16].
     off_grid (of_nat i) WEST \<and> off_grid (neighbour (of_nat i) WEST) EAST \<and>
     off_grid (of_nat (15 * 16 + i)) EAST \<and> off_grid (neighbour (of_nat (15 * 16 + i)) EAST) WEST \<and>
     off_grid (of_nat (i * 16)) SOUTH \<and> off_grid (neighbour (of_nat (i * 16)) SOUTH) NORTH \<and>
     off_grid (of_nat (16 * i + 15)) NORTH \<and> off_grid (neighbour (of_nat (16 * i + 15)) NORTH) SOUTH"
  by code_simp

lemma edge_off_grid:
  assumes "i < 16" and "edge i c d"
  shows "off_grid c d"
proof -
  from assms(1) have "i \<in> set [0..<16]" by simp
  with edges_on_perimeter assms(2) show ?thesis
    unfolding edge_def by blast
qed

lemma off_grid_edge:
  assumes "off_grid c d"
  shows "\<exists>i<16. edge i c d"
proof -
  have lt: "unat c < 256" by (rule unat_u8_less)
  from assms consider
      (n) "d = NORTH" "row c = 15" | (e) "d = EAST" "col c = 15"
    | (s) "d = SOUTH" "row c = 0" | (w) "d = WEST" "col c = 0"
    unfolding off_grid_def by auto
  then show ?thesis
  proof cases
    case n
    then have "16 * (unat c div 16) + 15 = unat c" unfolding row_def by arith
    then have "c = of_nat (16 * (unat c div 16) + 15)" by simp
    moreover have "unat c div 16 < 16" using lt by arith
    ultimately show ?thesis using n(1) unfolding edge_def by blast
  next
    case e
    then have "15 * 16 + (unat c - 240) = unat c" using lt unfolding col_def by arith
    then have "c = of_nat (15 * 16 + (unat c - 240))" by simp
    moreover have "unat c - 240 < 16" using lt by arith
    ultimately show ?thesis using e(1) unfolding edge_def by blast
  next
    case s
    then have "unat c div 16 * 16 = unat c" unfolding row_def by arith
    then have "c = of_nat (unat c div 16 * 16)" by simp
    moreover have "unat c div 16 < 16" using lt by arith
    ultimately show ?thesis using s(1) unfolding edge_def by blast
  next
    case w
    then have "unat c < 16" unfolding col_def by arith
    moreover have "c = of_nat (unat c)" by simp
    ultimately show ?thesis using w(1) unfolding edge_def by blast
  qed
qed

lemma is_wall_perimeter_loop:
  "is_wall (fold boundary_walls [0..<16] m) c d \<longleftrightarrow> is_wall m c d \<or> off_grid c d"
  using edge_off_grid off_grid_edge by (auto simp: is_wall_boundary_loop)

lemma off_grid_less_4: "off_grid c d \<Longrightarrow> d < 4"
  by (auto simp: off_grid_def)

lemma is_wall_initialise_maze:
  "is_wall (initialise_maze m) c d \<longleftrightarrow>
     off_grid c d \<or> c = START \<and> d = EAST \<or> c = cell_east START \<and> d = WEST"
proof -
  have z: "\<not> is_wall (m\<lparr>m_cost := \<lambda>_. 0, m_walls := \<lambda>_. 0\<rparr>) c d"
    by (simp add: is_wall_def)
  have a: "\<not> off_grid START NORTH" "\<not> off_grid (neighbour START NORTH) SOUTH"
    by (simp_all add: off_grid_def row_def col_def neighbour_def cell_north_def)
  show ?thesis
    using a z
    by (auto simp: initialise_maze_def Let_def is_wall_set_wall_absent is_wall_set_wall_present
        is_wall_perimeter_loop opposite_simps neighbour_def)
qed

text \<open>
  Claim C5: after \<open>initialise_maze\<close>, every cell of column 0 has its west wall, every cell
  of column 15 its east wall, every cell of row 0 its south wall and every cell of row 15
  its north wall; the start cell 0 has a wall to the east and none to the north.
\<close>

theorem initialise_postcondition:
  "(\<forall>c. (col c = 0 \<longrightarrow> is_wall (initialise_maze m) c WEST)
       \<and> (col c = 15 \<longrightarrow> is_wall (initialise_maze m) c EAST)
       \<and> (row c = 0 \<longrightarrow> is_wall (initialise_maze m) c SOUTH)
       \<and> (row c = 15 \<longrightarrow> is_wall (initialise_maze m) c NORTH))
   \<and> is_wall (initialise_maze m) START EAST \<and> \<not> is_wall (initialise_maze m) START NORTH"
  by (simp add: is_wall_initialise_maze off_grid_def row_def col_def cell_east_def)

theorem initialise_postcondition_witness:
  "col 0x05 = 0 \<and> is_wall (initialise_maze Maze) 0x05 WEST
   \<and> col 0xF3 = 15 \<and> is_wall (initialise_maze Maze) 0xF3 EAST
   \<and> row 0x30 = 0 \<and> is_wall (initialise_maze Maze) 0x30 SOUTH
   \<and> row 0x4F = 15 \<and> is_wall (initialise_maze Maze) 0x4F NORTH"
proof -
  from initialise_postcondition [where m = Maze]
  have p: "\<forall>c. (col c = 0 \<longrightarrow> is_wall (initialise_maze Maze) c WEST)
       \<and> (col c = 15 \<longrightarrow> is_wall (initialise_maze Maze) c EAST)
       \<and> (row c = 0 \<longrightarrow> is_wall (initialise_maze Maze) c SOUTH)
       \<and> (row c = 15 \<longrightarrow> is_wall (initialise_maze Maze) c NORTH)"
    by (rule conjunct1)
  from p [THEN spec, of "0x05"] p [THEN spec, of "0xF3"] p [THEN spec, of "0x30"]
    p [THEN spec, of "0x4F"]
  show ?thesis by (simp add: row_def col_def)
qed

subsection \<open>Geometry of the grid\<close>

lemma step_north:
  "q < 16 \<Longrightarrow> r < 15 \<Longrightarrow>
     (16 * q + r + 1) mod 256 mod 16 = r + 1 \<and> (16 * q + r + 1) mod 256 div 16 = (q :: nat)"
proof -
  assume a: "q < 16" "r < 15"
  then have "16 * q + r + 1 < 256" by arith
  then have "(16 * q + r + 1) mod 256 = 16 * q + (r + 1)" by simp
  with a show ?thesis by simp
qed

lemma step_east:
  "q < 15 \<Longrightarrow> r < 16 \<Longrightarrow>
     (16 * q + r + 16) mod 256 mod 16 = r \<and> (16 * q + r + 16) mod 256 div 16 = (q :: nat) + 1"
proof -
  assume a: "q < 15" "r < 16"
  then have "16 * q + r + 16 < 256" by arith
  then have "(16 * q + r + 16) mod 256 = 16 * (q + 1) + r" by simp
  with a show ?thesis by (simp del: mult_Suc_right add_Suc_right)
qed

lemma step_south:
  "q < 16 \<Longrightarrow> 0 < r \<Longrightarrow> r < 16 \<Longrightarrow>
     (16 * q + r + 255) mod 256 mod 16 + 1 = r \<and> (16 * q + r + 255) mod 256 div 16 = (q :: nat)"
proof -
  assume a: "q < 16" "0 < r" "r < 16"
  define r' where "r' = r - 1"
  with a have r: "r = r' + 1" "r' < 15" by simp_all
  have "16 * q + r + 255 = 16 * q + r' + 1 * 256" using r by simp
  moreover have "16 * q + r' < 256" using a r by arith
  ultimately have "(16 * q + r + 255) mod 256 = 16 * q + r'"
    by (simp only: mod_mult_self1 mod_less)
  then show ?thesis using r by simp
qed

lemma step_west:
  "0 < q \<Longrightarrow> q < 16 \<Longrightarrow> r < 16 \<Longrightarrow>
     (16 * q + r + 240) mod 256 mod 16 = r \<and> (16 * q + r + 240) mod 256 div 16 + 1 = (q :: nat)"
proof -
  assume a: "0 < q" "q < 16" "r < 16"
  then have "16 * q + r + 240 = 16 * (q - 1) + r + 1 * 256" "16 * (q - 1) + r < 256" by arith+
  then have "(16 * q + r + 240) mod 256 = 16 * (q - 1) + r"
    by (simp only: mod_mult_self1 mod_less)
  with a show ?thesis by simp
qed

lemma row_col_less: "row c < 16" "col c < 16"
  using unat_u8_less [of c] by (simp_all add: row_def col_def)

lemma unat_row_col: "unat c = 16 * col c + row c"
  by (simp add: row_def col_def)

lemma row_col_neighbour:
  "\<not> off_grid c NORTH \<Longrightarrow> row (neighbour c NORTH) = row c + 1 \<and> col (neighbour c NORTH) = col c"
  "\<not> off_grid c EAST \<Longrightarrow> row (neighbour c EAST) = row c \<and> col (neighbour c EAST) = col c + 1"
  "\<not> off_grid c SOUTH \<Longrightarrow> row (neighbour c SOUTH) + 1 = row c \<and> col (neighbour c SOUTH) = col c"
  "\<not> off_grid c WEST \<Longrightarrow> row (neighbour c WEST) = row c \<and> col (neighbour c WEST) + 1 = col c"
proof -
  note l = row_col_less [of c]
  show "\<not> off_grid c NORTH \<Longrightarrow> row (neighbour c NORTH) = row c + 1 \<and> col (neighbour c NORTH) = col c"
    using step_north [of "col c" "row c"] l
    unfolding row_def [of "neighbour c NORTH"] col_def [of "neighbour c NORTH"] unat_neighbour
      unat_row_col [of c] off_grid_def
    by simp
  show "\<not> off_grid c EAST \<Longrightarrow> row (neighbour c EAST) = row c \<and> col (neighbour c EAST) = col c + 1"
    using step_east [of "col c" "row c"] l
    unfolding row_def [of "neighbour c EAST"] col_def [of "neighbour c EAST"] unat_neighbour
      unat_row_col [of c] off_grid_def
    by simp
  show "\<not> off_grid c SOUTH \<Longrightarrow> row (neighbour c SOUTH) + 1 = row c \<and> col (neighbour c SOUTH) = col c"
    using step_south [of "col c" "row c"] l
    unfolding row_def [of "neighbour c SOUTH"] col_def [of "neighbour c SOUTH"] unat_neighbour
      unat_row_col [of c] off_grid_def
    by simp
  show "\<not> off_grid c WEST \<Longrightarrow> row (neighbour c WEST) = row c \<and> col (neighbour c WEST) + 1 = col c"
    using step_west [of "col c" "row c"] l
    unfolding row_def [of "neighbour c WEST"] col_def [of "neighbour c WEST"] unat_neighbour
      unat_row_col [of c] off_grid_def
    by simp
qed

lemma cell_eq_iff: "c = t \<longleftrightarrow> row c = row t \<and> col c = col t"
proof
  assume "row c = row t \<and> col c = col t"
  then have "unat c = unat t" by (simp add: unat_row_col [of c] unat_row_col [of t])
  then show "c = t" by (simp add: u8_eq_iff)
qed simp

lemma manhattan_less: "manhattan c t \<le> 30"
  using row_col_less [of c] row_col_less [of t] unfolding manhattan_def by arith

lemma abs_step:
  fixes a b :: nat
  shows "nat \<bar>int (a + 1) - int b\<bar> \<le> nat \<bar>int a - int b\<bar> + 1"
    and "a' + 1 = a \<Longrightarrow> nat \<bar>int a' - int b\<bar> \<le> nat \<bar>int a - int b\<bar> + 1"
  by arith+

lemma manhattan_neighbour:
  assumes "d < 4" and "\<not> off_grid c d"
  shows "manhattan (neighbour c d) t \<le> manhattan c t + 1"
proof -
  from assms(1) consider "d = NORTH" | "d = EAST" | "d = SOUTH" | "d = WEST"
    unfolding less_4_cases by auto
  then show ?thesis
  proof cases
    case 1
    with assms(2) row_col_neighbour(1) [of c] abs_step(1) [of "row c" "row t"]
    show ?thesis by (simp add: manhattan_def)
  next
    case 2
    with assms(2) row_col_neighbour(2) [of c] abs_step(1) [of "col c" "col t"]
    show ?thesis by (simp add: manhattan_def)
  next
    case 3
    with assms(2) row_col_neighbour(3) [of c]
      abs_step(2) [of "row (neighbour c SOUTH)" "row c" "row t"]
    show ?thesis by (simp add: manhattan_def)
  next
    case 4
    with assms(2) row_col_neighbour(4) [of c]
      abs_step(2) [of "col (neighbour c WEST)" "col c" "col t"]
    show ?thesis by (simp add: manhattan_def)
  qed
qed

lemma off_grid_back:
  assumes "d < 4" and "\<not> off_grid c d"
  shows "\<not> off_grid (neighbour c d) (opposite d)"
proof -
  from assms(1) consider "d = NORTH" | "d = EAST" | "d = SOUTH" | "d = WEST"
    unfolding less_4_cases by auto
  then show ?thesis
  proof cases
    case 1
    with assms(2) row_col_neighbour(1) [of c] show ?thesis
      by (simp add: opposite_simps off_grid_def)
  next
    case 2
    with assms(2) row_col_neighbour(2) [of c] show ?thesis
      by (simp add: opposite_simps off_grid_def)
  next
    case 3
    with assms(2) row_col_neighbour(3) [of c] row_col_less [of c] show ?thesis
      by (auto simp: opposite_simps off_grid_def)
  next
    case 4
    with assms(2) row_col_neighbour(4) [of c] row_col_less [of c] show ?thesis
      by (auto simp: opposite_simps off_grid_def)
  qed
qed

lemma abs_closer:
  fixes a b :: nat
  shows "b < a \<Longrightarrow> a' + 1 = a \<Longrightarrow> nat \<bar>int a' - int b\<bar> + 1 = nat \<bar>int a - int b\<bar>"
    and "a < b \<Longrightarrow> nat \<bar>int (a + 1) - int b\<bar> + 1 = nat \<bar>int a - int b\<bar>"
  by arith+

lemma manhattan_closer:
  assumes "c \<noteq> t"
  shows "\<exists>e<4. \<not> off_grid c e \<and> manhattan (neighbour c e) t + 1 = manhattan c t"
proof -
  from assms consider (s) "row t < row c" | (n) "row c < row t" | (w) "col t < col c" | (e) "col c < col t"
    unfolding cell_eq_iff by arith
  then show ?thesis
  proof cases
    case s
    then have o: "\<not> off_grid c SOUTH" by (simp add: off_grid_def)
    from row_col_neighbour(3) [OF o] abs_closer(1) [OF s, of "row (neighbour c SOUTH)"]
    have "manhattan (neighbour c SOUTH) t + 1 = manhattan c t"
      by (simp add: manhattan_def)
    with o show ?thesis by (intro exI [of _ SOUTH]) simp
  next
    case n
    then have o: "\<not> off_grid c NORTH" using row_col_less [of t] by (simp add: off_grid_def)
    from row_col_neighbour(1) [OF o] abs_closer(2) [OF n]
    have "manhattan (neighbour c NORTH) t + 1 = manhattan c t"
      by (simp add: manhattan_def)
    with o show ?thesis by (intro exI [of _ NORTH]) simp
  next
    case w
    then have o: "\<not> off_grid c WEST" by (simp add: off_grid_def)
    from row_col_neighbour(4) [OF o] abs_closer(1) [OF w, of "col (neighbour c WEST)"]
    have "manhattan (neighbour c WEST) t + 1 = manhattan c t"
      by (simp add: manhattan_def)
    with o show ?thesis by (intro exI [of _ WEST]) simp
  next
    case e
    then have o: "\<not> off_grid c EAST" using row_col_less [of t] by (simp add: off_grid_def)
    from row_col_neighbour(2) [OF o] abs_closer(2) [OF e]
    have "manhattan (neighbour c EAST) t + 1 = manhattan c t"
      by (simp add: manhattan_def)
    with o show ?thesis by (intro exI [of _ EAST]) simp
  qed
qed

subsection \<open>Flooding an open grid\<close>

lemma flood_loop_invariant:
  assumes "\<And>cost here q. I (cost, here # q) \<Longrightarrow> I (flood_cell m here (cost, q))"
    and "I s"
  shows "I (flood_loop m s, [])"
  using assms
proof (induction m s rule: flood_loop.induct)
  case (1 m cost)
  then show ?case by simp
next
  case (2 m cost here q)
  from "2.prems"(1) [OF "2.prems"(2)] have "I (flood_cell m here (cost, q))" .
  with "2.IH" "2.prems"(1) show ?case by simp
qed

lemma unat_newCost: "unat (ucast (c0 :: u8) + 1 :: u16) = unat c0 + 1"
proof -
  have "unat c0 + 1 < 2 ^ 16" using unat_u8_less [of c0] by simp
  then show ?thesis
    by (simp add: unat_word_ariths unat_ucast_u8_u16)
qed

lemma newCost_less: "(ucast (c0 :: u8) + 1 :: u16) < ucast (x :: u8) \<longleftrightarrow> unat c0 + 1 < unat x"
  by (simp add: word_less_nat_alt unat_newCost unat_ucast_u8_u16)

lemma unat_stored:
  assumes "unat (c0 :: u8) + 1 < unat (x :: u8)"
  shows "unat (ucast (ucast c0 + 1 :: u16) :: u8) = unat c0 + 1"
proof -
  have "unat c0 + 1 < 256" using assms unat_u8_less [of x] by simp
  then show ?thesis
    by (simp add: unsigned_ucast_eq unat_newCost take_bit_nat_eq_self)
qed

lemma neighbour_neq: "d < 4 \<Longrightarrow> neighbour c d \<noteq> c"
  unfolding less_4_cases
  by (auto simp: neighbour_def cell_north_def cell_east_def cell_south_def cell_west_def)

lemma flood_direction_skip:
  "\<not> (is_exit m here d \<and> unat (c0 :: u8) + 1 < unat (cost (neighbour here d))) \<Longrightarrow>
     flood_direction m here (ucast c0 + 1) d (cost, q) = (cost, q)"
  by (simp add: flood_direction_def Let_def newCost_less)

lemma flood_direction_store:
  "is_exit m here d \<Longrightarrow> unat (c0 :: u8) + 1 < unat (cost (neighbour here d)) \<Longrightarrow>
     flood_direction m here (ucast c0 + 1) d (cost, q)
       = (cost(neighbour here d := ucast (ucast c0 + 1 :: u16)), q @ [neighbour here d])"
  by (simp add: flood_direction_def Let_def newCost_less queue_add_def)

lemma cell_inv_step:
  assumes og: "open_grid m" and d: "d < 4" and inv: "cell_inv m t here c0 D s"
  shows "cell_inv m t here c0 (insert d D) (flood_direction m here (ucast c0 + 1) d s)"
proof -
  obtain cost q where s: "s = (cost, q)" by (cases s)
  let ?n = "neighbour here d"
  from inv have t0: "cost t = 0" and h: "cost here = c0"
    and lb: "\<And>c. cost c \<noteq> MAX_COST \<Longrightarrow> manhattan c t \<le> unat (cost c)"
    and rl: "\<And>c. cost c \<noteq> MAX_COST \<Longrightarrow> c = here \<or> c \<in> set q \<or> relaxed m cost c"
    and dn: "\<And>e. e \<in> D \<Longrightarrow> is_exit m here e \<Longrightarrow> unat (cost (neighbour here e)) \<le> unat c0 + 1"
    by (auto simp: cell_inv_def s)
  show ?thesis
  proof (cases "is_exit m here d \<and> unat c0 + 1 < unat (cost ?n)")
    case False
    then have st: "flood_direction m here (ucast c0 + 1) d s = (cost, q)"
      unfolding s by (rule flood_direction_skip)
    have "is_exit m here d \<longrightarrow> unat (cost ?n) \<le> unat c0 + 1"
      using False by auto
    with t0 h lb rl dn show ?thesis
      unfolding st cell_inv_def by auto
  next
    case True
    then have ex: "is_exit m here d" and lt: "unat c0 + 1 < unat (cost ?n)" by simp_all
    let ?v = "ucast (ucast c0 + 1 :: u16) :: u8"
    let ?cost = "cost(?n := ?v)"
    have st: "flood_direction m here (ucast c0 + 1) d s = (?cost, q @ [?n])"
      unfolding s using ex lt by (rule flood_direction_store)
    have v: "unat ?v = unat c0 + 1" using lt by (rule unat_stored)
    have c0: "c0 \<noteq> MAX_COST"
    proof
      assume "c0 = MAX_COST"
      then have "unat c0 = 255" by simp
      with lt unat_u8_less [of "cost ?n"] show False by simp
    qed
    have nt: "?n \<noteq> t" using lt t0 by auto
    have nh: "?n \<noteq> here" using d by (rule neighbour_neq)
    have mono: "unat (?cost x) \<le> unat (cost x)" for x
      using lt v by simp
    have keep: "x \<noteq> ?n \<Longrightarrow> ?cost x = cost x" for x by simp
    have "\<not> is_wall m here d" using ex by (simp add: is_wall_bit is_exit_bit)
    with og d have on: "\<not> off_grid here d" by (simp add: open_grid_def)
    have 1: "?cost t = 0" using nt t0 by simp
    have 2: "?cost here = c0" using nh h by simp
    have 3: "manhattan x t \<le> unat (?cost x)" if "?cost x \<noteq> MAX_COST" for x
    proof (cases "x = ?n")
      case True
      have "manhattan ?n t \<le> manhattan here t + 1"
        using d on by (rule manhattan_neighbour)
      also have "manhattan here t \<le> unat c0" using lb [of here] h c0 by simp
      finally show ?thesis using True v by simp
    next
      case False
      with that lb [of x] show ?thesis by simp
    qed
    have 4: "x = here \<or> x \<in> set (q @ [?n]) \<or> relaxed m ?cost x" if "?cost x \<noteq> MAX_COST" for x
    proof (cases "x = ?n")
      case True
      then show ?thesis by simp
    next
      case False
      with that have "cost x \<noteq> MAX_COST" by simp
      from rl [OF this] consider "x = here" | "x \<in> set q" | "relaxed m cost x" by blast
      then show ?thesis
      proof cases
        case 3
        have "relaxed m ?cost x"
          unfolding relaxed_def
        proof (intro allI impI)
          fix e :: u8
          assume "e < 4" "is_exit m x e"
          with 3 have "unat (cost (neighbour x e)) \<le> unat (cost x) + 1"
            by (simp add: relaxed_def)
          with mono [of "neighbour x e"] keep [OF False]
          show "unat (?cost (neighbour x e)) \<le> unat (?cost x) + 1" by simp
        qed
        then show ?thesis by simp
      qed simp_all
    qed
    have 5: "unat (?cost (neighbour here e)) \<le> unat c0 + 1"
      if "e \<in> insert d D" "is_exit m here e" for e
    proof (cases "e = d")
      case True
      then show ?thesis using v by simp
    next
      case False
      with that dn [of e] have "unat (cost (neighbour here e)) \<le> unat c0 + 1" by simp
      with mono [of "neighbour here e"] show ?thesis by simp
    qed
    show ?thesis
      unfolding st cell_inv_def prod.case
      using 1 2 3 4 5 by blast
  qed
qed

lemma flood_inv_cell:
  assumes og: "open_grid m" and inv: "flood_inv m t (cost, here # q)"
  shows "flood_inv m t (flood_cell m here (cost, q))"
proof -
  let ?c0 = "cost here"
  let ?f = "\<lambda>d. flood_direction m here (ucast ?c0 + 1) d"
  have 0: "cell_inv m t here ?c0 {} (cost, q)"
    using inv by (auto simp: flood_inv_def cell_inv_def)
  have 1: "cell_inv m t here ?c0 {0} (?f 0 (cost, q))"
    using cell_inv_step [OF og _ 0, of 0] by simp
  have 2: "cell_inv m t here ?c0 {1, 0} (?f 1 (?f 0 (cost, q)))"
    using cell_inv_step [OF og _ 1, of 1] by simp
  have 3: "cell_inv m t here ?c0 {2, 1, 0} (?f 2 (?f 1 (?f 0 (cost, q))))"
    using cell_inv_step [OF og _ 2, of 2] by simp
  have 4: "cell_inv m t here ?c0 {3, 2, 1, 0} (?f 3 (?f 2 (?f 1 (?f 0 (cost, q)))))"
    using cell_inv_step [OF og _ 3, of 3] by simp
  then have c: "cell_inv m t here ?c0 {3, 2, 1, 0} (flood_cell m here (cost, q))"
    by (simp add: flood_cell_unfold)
  obtain cost' q' where r: "flood_cell m here (cost, q) = (cost', q')"
    by (cases "flood_cell m here (cost, q)")
  from c have t0: "cost' t = 0" and h: "cost' here = ?c0"
    and lb: "\<And>c. cost' c \<noteq> MAX_COST \<Longrightarrow> manhattan c t \<le> unat (cost' c)"
    and rl: "\<And>c. cost' c \<noteq> MAX_COST \<Longrightarrow> c = here \<or> c \<in> set q' \<or> relaxed m cost' c"
    and dn: "\<And>e. e \<in> {3, 2, 1, 0} \<Longrightarrow> is_exit m here e \<Longrightarrow>
               unat (cost' (neighbour here e)) \<le> unat ?c0 + 1"
    unfolding r cell_inv_def prod.case by blast+
  have "relaxed m cost' here"
    unfolding relaxed_def less_4_cases using dn h by auto
  with rl have "\<And>c. cost' c \<noteq> MAX_COST \<Longrightarrow> c \<in> set q' \<or> relaxed m cost' c"
    by blast
  with t0 lb show ?thesis
    unfolding r flood_inv_def prod.case by blast
qed

lemma manhattan_self: "manhattan t t = 0"
  by (simp add: manhattan_def)

lemma manhattan_zero: "manhattan c t = 0 \<Longrightarrow> c = t"
  unfolding cell_eq_iff manhattan_def by arith

lemma open_grid_open_maze: "open_grid open_maze"
proof -
  have "\<not> off_grid START EAST" "\<not> off_grid (neighbour START EAST) WEST"
    by (simp_all add: off_grid_def row_def col_def neighbour_def cell_east_def)
  then show ?thesis
    unfolding open_grid_def open_maze_def
    by (auto simp: is_wall_set_wall_absent is_wall_initialise_maze opposite_simps neighbour_def
        dest: off_grid_less_4)
qed

text \<open>
  Claim C1: for every target cell \<open>t\<close>, if the wall bits are exactly the perimeter walls
  (an open grid, no internal wall), then after \<open>flood_maze t\<close> the cost of every cell \<open>c\<close>
  is \<open>|row c - row t| + |col c - col t|\<close>, the Manhattan distance under
  \<open>cell = row + 16 * column\<close>.
\<close>

theorem flood_open_grid:
  assumes og: "open_grid m"
  shows "unat (m_cost (flood_maze m t) c) = manhattan c t"
proof -
  define final where "final = flood_loop m ((\<lambda>_. MAX_COST)(t := 0), [t])"
  have res: "m_cost (flood_maze m t) = final"
    by (simp add: flood_maze_def queue_add_def Let_def final_def)
  have "flood_inv m t ((\<lambda>_. MAX_COST)(t := 0), [t])"
    by (simp add: flood_inv_def manhattan_self)
  with flood_inv_cell [OF og] have "flood_inv m t (final, [])"
    unfolding final_def by (rule flood_loop_invariant)
  then have t0: "final t = 0"
    and lb: "\<And>x. final x \<noteq> MAX_COST \<Longrightarrow> manhattan x t \<le> unat (final x)"
    and rl: "\<And>x. final x \<noteq> MAX_COST \<Longrightarrow> relaxed m final x"
    by (auto simp: flood_inv_def)
  have ub: "unat (final x) \<le> manhattan x t" for x
  proof (induction "manhattan x t" arbitrary: x)
    case 0
    then have "x = t" by (simp add: manhattan_zero)
    with t0 show ?case by simp
  next
    case (Suc n)
    then have "x \<noteq> t" by (auto simp: manhattan_self)
    from manhattan_closer [OF this] obtain e where e: "e < 4" "\<not> off_grid x e"
      and cl: "manhattan (neighbour x e) t + 1 = manhattan x t" by blast
    let ?y = "neighbour x e"
    from cl Suc.hyps(2) have n: "n = manhattan ?y t" by simp
    from Suc.hyps(1) [OF n] have y: "unat (final ?y) \<le> n" by (simp add: n)
    have "n \<le> 30" unfolding n by (rule manhattan_less)
    with y have "unat (final ?y) \<noteq> 255" by simp
    then have "final ?y \<noteq> MAX_COST" by auto
    then have r: "relaxed m final ?y" by (rule rl)
    have o: "opposite e < 4" using opposite_opposite [OF e(1)] by simp
    have "\<not> off_grid ?y (opposite e)" using e by (rule off_grid_back)
    with og o have "\<not> is_wall m ?y (opposite e)" by (simp add: open_grid_def)
    then have "is_exit m ?y (opposite e)" by (simp add: is_wall_bit is_exit_bit)
    with r o have "unat (final (neighbour ?y (opposite e))) \<le> unat (final ?y) + 1"
      by (simp add: relaxed_def)
    with y Suc.hyps(2) show ?case by (simp add: neighbour_back [OF e(1)])
  qed
  have "manhattan c t \<le> 30" by (rule manhattan_less)
  with ub [of c] have "unat (final c) \<noteq> 255" by simp
  then have "final c \<noteq> MAX_COST" by auto
  from lb [OF this] ub [of c] show ?thesis by (simp add: res)
qed

theorem flood_open_grid_witness:
  "unat (m_cost (flood_maze open_maze 0x00) 0x32) = 5 \<and> row 0x32 = 2 \<and> col 0x32 = 3
   \<and> unat (m_cost (flood_maze open_maze 0x22) 0x00) = 4"
  using flood_open_grid [OF open_grid_open_maze, of "0x00" "0x32"]
    flood_open_grid [OF open_grid_open_maze, of "0x22" "0x00"]
  by (simp add: manhattan_def row_def col_def)

subsection \<open>The sentinel\<close>

lemma reach_inv_direction:
  assumes "d < 4" and "reach m t here" and "reach_inv m t s"
  shows "reach_inv m t (flood_direction m here nc d s)"
proof -
  obtain cost q where s: "s = (cost, q)" by (cases s)
  from assms(3) have t0: "cost t = 0" by (simp add: reach_inv_def s)
  have "neighbour here d \<noteq> t" if "nc < ucast (cost (neighbour here d))"
  proof
    assume "neighbour here d = t"
    with that t0 show False by simp
  qed
  moreover have "reach m t (neighbour here d)" if "is_exit m here d"
    using assms(2,1) that by (rule reach.exit)
  ultimately show ?thesis
    using assms(3) unfolding s reach_inv_def flood_direction_def
    by (auto simp: Let_def queue_add_def)
qed

lemma reach_inv_cell:
  assumes "reach_inv m t (cost, here # q)"
  shows "reach_inv m t (flood_cell m here (cost, q))"
proof -
  from assms have h: "reach m t here" and 0: "reach_inv m t (cost, q)"
    by (simp_all add: reach_inv_def)
  show ?thesis
    unfolding flood_cell_unfold
    by (intro reach_inv_direction h 0) simp_all
qed

lemma walled_unreachable:
  assumes "wall_symmetric m" and "c \<noteq> t"
    and "is_wall m c NORTH" "is_wall m c EAST" "is_wall m c SOUTH" "is_wall m c WEST"
  shows "\<not> reach m t c"
proof
  assume "reach m t c"
  then show False
  proof cases
    case target
    with assms(2) show False by simp
  next
    case (exit c' d)
    from exit(3) opposite_opposite [of d] have "opposite d < 4" by simp
    with assms(3-6) have "is_wall m c (opposite d)"
      unfolding less_4_cases by auto
    with assms(1) exit(1,3) have "is_wall m c' d"
      by (simp add: wall_symmetric_def)
    with exit(4) show False by (simp add: is_wall_bit is_exit_bit)
  qed
qed

text \<open>
  The flood reads the wall bit of the cell it leaves only. Whatever the wall array, the
  target ends with cost 0 and a cell that no chain of exits reaches keeps cost 255.
\<close>

lemma flood_unreached:
  "m_cost (flood_maze m t) t = 0
   \<and> (\<forall>c. \<not> reach m t c \<longrightarrow> m_cost (flood_maze m t) c = MAX_COST)"
proof -
  define final where "final = flood_loop m ((\<lambda>_. MAX_COST)(t := 0), [t])"
  have res: "m_cost (flood_maze m t) = final"
    by (simp add: flood_maze_def queue_add_def Let_def final_def)
  have "reach_inv m t ((\<lambda>_. MAX_COST)(t := 0), [t])"
    by (simp add: reach_inv_def reach.target)
  with reach_inv_cell have "reach_inv m t (final, [])"
    unfolding final_def by (rule flood_loop_invariant)
  then show ?thesis
    unfolding res by (auto simp: reach_inv_def)
qed

text \<open>
  Every state of the object has symmetric walls, so there a cell with all four wall bits set
  is beyond every chain of exits (\<open>walled_unreachable\<close>).
\<close>

lemma wall_symmetric_walls: "m_walls m' = m_walls m \<Longrightarrow> wall_symmetric m' = wall_symmetric m"
  by (simp add: wall_symmetric_def is_wall_def)

lemma visited_bits:
  "\<not> bit VISITED (0 :: nat)" "\<not> bit VISITED (1 :: nat)" "\<not> bit VISITED (2 :: nat)"
  "\<not> bit VISITED (3 :: nat)"
  by (simp_all add: bit_numeral_word_iff flip: numeral_2_eq_2)

lemma is_wall_mark_cell_visited:
  assumes "d < 4"
  shows "is_wall (mark_cell_visited m cell) c d = is_wall m c d"
proof -
  from assms have "unat d < 4" by (simp add: word_less_nat_alt)
  then have "unat d = 0 \<or> unat d = 1 \<or> unat d = 2 \<or> unat d = 3" by arith
  then have "bit (w OR VISITED) (unat d) = bit w (unat d)" for w :: u8
    using visited_bits by (auto simp: bit_or_iff)
  then show ?thesis
    by (simp add: is_wall_bit mark_cell_visited_def)
qed

lemma symmetric_visited:
  assumes "wall_symmetric m"
  shows "wall_symmetric (mark_cell_visited m cell)"
  unfolding wall_symmetric_def
proof (intro allI impI)
  fix c d :: u8
  assume d: "d < 4"
  then have o: "opposite d < 4" using opposite_opposite [of d] by simp
  from assms d have "is_wall m c d = is_wall m (neighbour c d) (opposite d)"
    by (simp add: wall_symmetric_def)
  then show "is_wall (mark_cell_visited m cell) c d
      = is_wall (mark_cell_visited m cell) (neighbour c d) (opposite d)"
    by (simp only: is_wall_mark_cell_visited [OF d] is_wall_mark_cell_visited [OF o])
qed

lemma maze_state_symmetric: "maze_state m \<Longrightarrow> wall_symmetric m"
proof (induction rule: maze_state.induct)
  case fresh
  show ?case by (rule symmetric_open) (simp add: Maze_def)
next
  case (goal m goal_cell)
  have "m_walls (set_maze_goal m goal_cell) = m_walls m" by (simp add: set_maze_goal_def)
  from wall_symmetric_walls [OF this] goal.IH show ?case by simp
next
  case (visited m cell)
  from visited.IH show ?case by (rule symmetric_visited)
next
  case (present m cell direction)
  from present.IH show ?case by (rule symmetric_present)
next
  case (absent m cell direction)
  from absent.IH show ?case by (rule symmetric_absent)
next
  case (initialise m)
  show ?case by (rule symmetric_initialise)
next
  case (flood m target)
  have "m_walls (flood_maze m target) = m_walls m" by (simp add: flood_maze_def Let_def)
  from wall_symmetric_walls [OF this] flood.IH show ?case by simp
qed

lemma maze_state_calls: "maze_state m \<Longrightarrow> maze_state (fold call calls m)"
proof (induction calls arbitrary: m)
  case Nil
  then show ?case by simp
next
  case (Cons x calls)
  have "maze_state (call x m)"
    using Cons.prems by (cases x) (simp_all add: maze_state.present maze_state.absent)
  then show ?case using Cons.IH by simp
qed

text \<open>
  Claim C8: for every wall state the maze can be in (every state of the object, whose
  wall array only its member functions write) and every target \<open>t\<close>, after \<open>flood_maze t\<close>
  every cell that is not reachable from \<open>t\<close> through open passages has cost 255, in
  particular every cell other than \<open>t\<close> with all four wall bits set, and the cost of \<open>t\<close>
  is 0.
\<close>

theorem sentinel:
  assumes "maze_state m"
  shows "m_cost (flood_maze m t) t = 0
       \<and> (\<forall>c. \<not> reach m t c \<longrightarrow> m_cost (flood_maze m t) c = MAX_COST)
       \<and> (\<forall>c. c \<noteq> t \<and> is_wall m c NORTH \<and> is_wall m c EAST \<and> is_wall m c SOUTH \<and> is_wall m c WEST
             \<longrightarrow> m_cost (flood_maze m t) c = MAX_COST)"
proof -
  from assms have "wall_symmetric m" by (rule maze_state_symmetric)
  from flood_unreached [of m t] walled_unreachable [OF this, of _ t] show ?thesis
    by blast
qed

lemma boxed_maze_state: "maze_state boxed_maze"
proof -
  have "maze_state (initialise_maze Maze)"
    by (rule maze_state.initialise) (rule maze_state.fresh)
  then show ?thesis
    unfolding boxed_maze_def by (rule maze_state_calls)
qed

theorem sentinel_witness:
  "maze_state boxed_maze \<and> (0x35::u8) \<noteq> 0x00
   \<and> is_wall boxed_maze 0x35 NORTH \<and> is_wall boxed_maze 0x35 EAST
   \<and> is_wall boxed_maze 0x35 SOUTH \<and> is_wall boxed_maze 0x35 WEST
   \<and> m_cost (flood_maze boxed_maze 0x00) 0x35 = MAX_COST
   \<and> m_cost (flood_maze boxed_maze 0x00) 0x00 = 0"
proof -
  have w: "is_wall boxed_maze 0x35 NORTH" "is_wall boxed_maze 0x35 EAST"
    "is_wall boxed_maze 0x35 SOUTH" "is_wall boxed_maze 0x35 WEST"
    by (simp_all add: boxed_maze_def is_wall_set_wall_present)
  have n: "(0x35::u8) \<noteq> 0x00" by simp
  note s = sentinel [OF boxed_maze_state, of "0x00"]
  from s have "m_cost (flood_maze boxed_maze 0x00) 0x00 = 0" by (rule conjunct1)
  moreover from s [THEN conjunct2, THEN conjunct2, THEN spec, of "0x35"] w n
  have "m_cost (flood_maze boxed_maze 0x00) 0x35 = MAX_COST" by simp
  ultimately show ?thesis using boxed_maze_state w n by simp
qed

subsection \<open>The direction selector\<close>




lemma turned_less_4: "turned s k < 4"
proof -
  have "(unat s + k) mod 4 < 4" by simp
  then have "(of_nat ((unat s + k) mod 4) :: u8) < of_nat 4"
    by (simp add: word_less_nat_alt unat_of_nat take_bit_nat_eq_self del: of_nat_numeral)
  then show ?thesis by (simp add: turned_def)
qed

text \<open>The four blocks of \<open>direction_to_smallest\<close> are one scan over the four directions.\<close>

lemma direction_to_smallest_fold:
  "direction_to_smallest m cell s =
     (let r = fold (smaller_neighbour m cell) (ahead_right_left_behind s)
                (ucast (m_cost m cell), INVALID_DIRECTION)
      in if fst r = 255 then 0 else snd r)"
  by (simp add: direction_to_smallest_def ahead_right_left_behind_def Let_def)

lemma scan_snd:
  "snd (fold (smaller_neighbour m cell) ds s) \<in> insert (snd s) (set ds)"
proof (induction ds arbitrary: s)
  case Nil
  show ?case by simp
next
  case (Cons e ds)
  have "snd (smaller_neighbour m cell e s) \<in> {snd s, e}"
    by (cases s) (simp add: smaller_neighbour_def Let_def)
  with Cons.IH [of "smaller_neighbour m cell e s"] show ?case by auto
qed









text \<open>
  Claim C9: for every maze, every cell and every \<open>startDirection\<close> in 0..3,
  \<open>direction_to_smallest\<close> returns one of 0, 1, 2, 3, never the pseudo-direction 4 of the
  renderer or anything larger, so the index \<open>print_with_directions\<close> reads \<open>dirChars\<close> at
  is inside the five glyphs.
\<close>

theorem direction_in_range:
  assumes "startDirection < 4"
  shows "direction_to_smallest m cell startDirection < 4
       \<and> unat (direction_glyph_index m cell) < length dirChars"
proof -
  have r: "direction_to_smallest m' c s < 4" if "s < 4" for m' c s
  proof -
    have "snd (fold (smaller_neighbour m' c) (ahead_right_left_behind s)
             (ucast (m_cost m' c), INVALID_DIRECTION))
          \<in> insert 0 (set (ahead_right_left_behind s))"
      using scan_snd [of m' c "ahead_right_left_behind s"
          "(ucast (m_cost m' c), INVALID_DIRECTION)"] by simp
    then show ?thesis
      using that turned_less_4
      by (auto simp: direction_to_smallest_fold Let_def ahead_right_left_behind_def)
  qed
  have "unat (direction_to_smallest (flood_maze m (maze_goal m)) cell NORTH) < 4"
    using r [of NORTH "flood_maze m (maze_goal m)" cell] by (simp add: word_less_nat_alt)
  then have "unat (direction_glyph_index m cell) < length dirChars"
    by (simp add: direction_glyph_index_def Let_def dirChars_def)
  with r [OF assms] show ?thesis by simp
qed

theorem direction_in_range_witness:
  "(3::u8) < 4 \<and> direction_to_smallest tie_maze 0x11 WEST < 4
   \<and> unat (direction_glyph_index tie_maze 0x11) < 5"
  using direction_in_range [where startDirection = 3 and m = tie_maze and cell = "0x11"]
  by (simp add: dirChars_def)

end
